theory Spec2Isabelle
  imports Main "HOL-Library.Word"
begin

section \<open>The open-addressing hash table of SourceJZ.cpp\<close>

text \<open>
  The class \<open>HashTableLinearProbing<K, V>\<close> keeps a vector of entries, the capacity the
  vector was created with, and a counter \<open>size\<close>. The three operations probe the
  vector linearly from the home index of the key.

  The embedding follows the source statement by statement. The hash object
  \<open>std::hash<K>\<close> is a parameter \<open>hashObj\<close> giving the \<open>size_t\<close> hash of a key as a
  natural number. Indices and the capacity are natural numbers: the constructor cannot
  build a vector of negative length, every index the code computes is a remainder
  modulo the capacity, and \<open>index + 1\<close> is at most the capacity, so that no \<open>int\<close> of
  an index overflows.

  The counter \<open>size\<close> is an \<open>int\<close> of the source, 32 bits wide, and a 32-bit word
  here, read as a signed number by \<open>sint\<close>. The source moves it by \<open>size++\<close> and
  \<open>size--\<close> only; these are the addition and subtraction of the word, which wrap
  around as the two's complement machine does: \<open>size--\<close> at the least \<open>int\<close> gives
  the greatest. (C++ leaves the result of a signed overflow open; the model takes what
  the compiled program computes.)

  What C++ leaves undefined (a remainder modulo zero, \<open>table[index]\<close> beyond the
  vector) is the error \<open>Undefined\<close>; the two exceptions of the source are the errors
  \<open>TableFull\<close> (\<open>overflow_error\<close>) and \<open>KeyNotFound\<close> (\<open>runtime_error\<close>). A
  loop that does not return has the value \<open>None\<close>.

  Names are the source's, except where Isabelle has the name already: the field
  \<open>value\<close> is \<open>val\<close>, the counter \<open>size\<close> is \<open>size_ht\<close>, and \<open>insert\<close> and
  \<open>remove\<close> are \<open>insert_ht\<close> and \<open>remove_ht\<close>.
\<close>

subsection \<open>Data\<close>

record ('k, 'v) Entry =
  key :: 'k
  val :: 'v
  occupied :: bool
  active :: bool

record ('k, 'v) HashTableLinearProbing =
  table :: "('k, 'v) Entry list"
  capacity :: nat
  size_ht :: "32 word"

datatype error = TableFull | KeyNotFound | Undefined

text \<open>
  \<open>Entry()\<close> leaves key and value default-constructed; \<open>dk\<close> and \<open>dv\<close> stand for
  these defaults. \<open>Entry(k, v)\<close> is an occupied, active entry.
\<close>

definition Entry_empty :: "'k \<Rightarrow> 'v \<Rightarrow> ('k, 'v) Entry" where
  "Entry_empty dk dv = \<lparr>key = dk, val = dv, occupied = False, active = False\<rparr>"

definition Entry_kv :: "'k \<Rightarrow> 'v \<Rightarrow> ('k, 'v) Entry" where
  "Entry_kv k v = \<lparr>key = k, val = v, occupied = True, active = True\<rparr>"

text \<open>The constructor: \<open>capacity(capacity), size(0), table(capacity)\<close>.\<close>

definition HashTableLinearProbing_init ::
    "'k \<Rightarrow> 'v \<Rightarrow> nat \<Rightarrow> ('k, 'v) HashTableLinearProbing" where
  "HashTableLinearProbing_init dk dv cap =
     \<lparr>table = replicate cap (Entry_empty dk dv), capacity = cap, size_ht = 0\<rparr>"

subsection \<open>Operations\<close>

text \<open>\<open>hashFunction\<close>: \<open>hashObj(key) % capacity\<close>, undefined for capacity zero.\<close>

definition hashFunction ::
    "('k \<Rightarrow> nat) \<Rightarrow> ('k, 'v) HashTableLinearProbing \<Rightarrow> 'k \<Rightarrow> error + nat" where
  "hashFunction hashObj t k =
     (if capacity t = 0 then Inl Undefined else Inr (hashObj k mod capacity t))"

text \<open>
  The probe loop of \<open>insert\<close>: it leaves the loop with the index of the first slot that
  is not occupied or holds the key, and throws when the index comes back to
  \<open>start_index\<close>.
\<close>

partial_function (option) insert_loop ::
    "('k, 'v) HashTableLinearProbing \<Rightarrow> 'k \<Rightarrow> nat \<Rightarrow> nat \<Rightarrow> (error + nat) option" where
  "insert_loop t k start_index index =
     (if length (table t) \<le> index then Some (Inl Undefined)
      else if occupied (table t ! index) \<and> key (table t ! index) \<noteq> k then
        (if capacity t = 0 then Some (Inl Undefined)
         else if (index + 1) mod capacity t = start_index then Some (Inl TableFull)
         else insert_loop t k start_index ((index + 1) mod capacity t))
      else Some (Inr index))"

text \<open>
  \<open>insert\<close>: the slot found is overwritten with \<open>Entry(key, value)\<close>, and only then is
  its \<open>active\<close> flag read, in the table as it is after the overwrite.
\<close>

definition insert_ht ::
    "('k \<Rightarrow> nat) \<Rightarrow> ('k, 'v) HashTableLinearProbing \<Rightarrow> 'k \<Rightarrow> 'v \<Rightarrow>
       (error + ('k, 'v) HashTableLinearProbing) option" where
  "insert_ht hashObj t k v =
     (case hashFunction hashObj t k of
        Inl e \<Rightarrow> Some (Inl e)
      | Inr start_index \<Rightarrow>
          (case insert_loop t k start_index start_index of
             None \<Rightarrow> None
           | Some (Inl e) \<Rightarrow> Some (Inl e)
           | Some (Inr index) \<Rightarrow>
               if length (table t) \<le> index then Some (Inl Undefined)
               else
                 let t1 = t\<lparr>table := (table t)[index := Entry_kv k v]\<rparr> in
                 if \<not> active (table t1 ! index)
                 then Some (Inr (t1\<lparr>table := (table t1)[index := (table t1 ! index)\<lparr>active := True\<rparr>],
                                    size_ht := size_ht t1 + 1\<rparr>))
                 else Some (Inr t1)))"

text \<open>The probe loop of \<open>retrieve\<close>; leaving the loop throws \<open>KeyNotFound\<close>.\<close>

partial_function (option) retrieve_loop ::
    "('k, 'v) HashTableLinearProbing \<Rightarrow> 'k \<Rightarrow> nat \<Rightarrow> nat \<Rightarrow> (error + 'v) option" where
  "retrieve_loop t k start_index index =
     (if length (table t) \<le> index then Some (Inl Undefined)
      else if occupied (table t ! index) then
        (if key (table t ! index) = k \<and> active (table t ! index)
         then Some (Inr (val (table t ! index)))
         else if capacity t = 0 then Some (Inl Undefined)
         else if (index + 1) mod capacity t = start_index then Some (Inl KeyNotFound)
         else retrieve_loop t k start_index ((index + 1) mod capacity t))
      else Some (Inl KeyNotFound))"

definition retrieve ::
    "('k \<Rightarrow> nat) \<Rightarrow> ('k, 'v) HashTableLinearProbing \<Rightarrow> 'k \<Rightarrow> (error + 'v) option" where
  "retrieve hashObj t k =
     (case hashFunction hashObj t k of
        Inl e \<Rightarrow> Some (Inl e)
      | Inr start_index \<Rightarrow> retrieve_loop t k start_index start_index)"

text \<open>
  The probe loop of \<open>remove\<close>; the result is the returned flag and the table after the
  call.
\<close>

partial_function (option) remove_loop ::
    "('k, 'v) HashTableLinearProbing \<Rightarrow> 'k \<Rightarrow> nat \<Rightarrow> nat \<Rightarrow>
       (error + bool \<times> ('k, 'v) HashTableLinearProbing) option" where
  "remove_loop t k start_index index =
     (if length (table t) \<le> index then Some (Inl Undefined)
      else if occupied (table t ! index) then
        (if key (table t ! index) = k \<and> active (table t ! index)
         then Some (Inr (True,
                t\<lparr>table := (table t)[index := (table t ! index)\<lparr>active := False\<rparr>],
                  size_ht := size_ht t - 1\<rparr>))
         else if capacity t = 0 then Some (Inl Undefined)
         else if (index + 1) mod capacity t = start_index then Some (Inr (False, t))
         else remove_loop t k start_index ((index + 1) mod capacity t))
      else Some (Inr (False, t)))"

definition remove_ht ::
    "('k \<Rightarrow> nat) \<Rightarrow> ('k, 'v) HashTableLinearProbing \<Rightarrow> 'k \<Rightarrow>
       (error + bool \<times> ('k, 'v) HashTableLinearProbing) option" where
  "remove_ht hashObj t k =
     (case hashFunction hashObj t k of
        Inl e \<Rightarrow> Some (Inl e)
      | Inr start_index \<Rightarrow> remove_loop t k start_index start_index)"

subsection \<open>Sequences of calls\<close>

text \<open>
  The menu loop of \<open>main\<close> calls the three operations on one table, catching
  \<open>overflow_error\<close> around \<open>insert\<close> and \<open>runtime_error\<close> around \<open>retrieve\<close>; a
  call that throws leaves the table as it was. \<open>run\<close> is the table after a list of
  such calls, and \<open>None\<close> if a call is undefined or does not return.
\<close>

datatype ('k, 'v) call = Insert 'k 'v | Retrieve 'k | Remove 'k

fun exec :: "('k \<Rightarrow> nat) \<Rightarrow> ('k, 'v) HashTableLinearProbing \<Rightarrow> ('k, 'v) call \<Rightarrow>
    ('k, 'v) HashTableLinearProbing option" where
  "exec hashObj t (Insert k v) =
     (case insert_ht hashObj t k v of
        Some (Inr t') \<Rightarrow> Some t'
      | Some (Inl TableFull) \<Rightarrow> Some t
      | _ \<Rightarrow> None)"
| "exec hashObj t (Retrieve k) =
     (case retrieve hashObj t k of
        Some (Inr v) \<Rightarrow> Some t
      | Some (Inl KeyNotFound) \<Rightarrow> Some t
      | _ \<Rightarrow> None)"
| "exec hashObj t (Remove k) =
     (case remove_ht hashObj t k of
        Some (Inr (b, t')) \<Rightarrow> Some t'
      | _ \<Rightarrow> None)"

fun run :: "('k \<Rightarrow> nat) \<Rightarrow> ('k, 'v) HashTableLinearProbing \<Rightarrow> ('k, 'v) call list \<Rightarrow>
    ('k, 'v) HashTableLinearProbing option" where
  "run hashObj t [] = Some t"
| "run hashObj t (c # cs) =
     (case exec hashObj t c of None \<Rightarrow> None | Some t' \<Rightarrow> run hashObj t' cs)"

text \<open>The number of slots that are occupied and active.\<close>

definition live_count :: "('k, 'v) HashTableLinearProbing \<Rightarrow> nat" where
  "live_count t = length (filter (\<lambda>e. occupied e \<and> active e) (table t))"

subsection \<open>The loops, cut off\<close>

text \<open>
  The equations of the three loops are made code equations, so that the operations can
  be evaluated on concrete tables.
\<close>

declare insert_loop.simps [code]
declare retrieve_loop.simps [code]
declare remove_loop.simps [code]

text \<open>
  \<open>insert_loop_fuel n\<close> is the loop of \<open>insert\<close> allowed to look at \<open>n\<close> slots: it
  has the body of \<open>insert_loop\<close>, and the value \<open>None\<close> when it would look at one slot
  more. The same for the loops of \<open>retrieve\<close> and \<open>remove\<close>.
\<close>

fun insert_loop_fuel ::
    "nat \<Rightarrow> ('k, 'v) HashTableLinearProbing \<Rightarrow> 'k \<Rightarrow> nat \<Rightarrow> nat \<Rightarrow> (error + nat) option" where
  "insert_loop_fuel 0 t k start_index index = None"
| "insert_loop_fuel (Suc n) t k start_index index =
     (if length (table t) \<le> index then Some (Inl Undefined)
      else if occupied (table t ! index) \<and> key (table t ! index) \<noteq> k then
        (if capacity t = 0 then Some (Inl Undefined)
         else if (index + 1) mod capacity t = start_index then Some (Inl TableFull)
         else insert_loop_fuel n t k start_index ((index + 1) mod capacity t))
      else Some (Inr index))"

fun retrieve_loop_fuel ::
    "nat \<Rightarrow> ('k, 'v) HashTableLinearProbing \<Rightarrow> 'k \<Rightarrow> nat \<Rightarrow> nat \<Rightarrow> (error + 'v) option" where
  "retrieve_loop_fuel 0 t k start_index index = None"
| "retrieve_loop_fuel (Suc n) t k start_index index =
     (if length (table t) \<le> index then Some (Inl Undefined)
      else if occupied (table t ! index) then
        (if key (table t ! index) = k \<and> active (table t ! index)
         then Some (Inr (val (table t ! index)))
         else if capacity t = 0 then Some (Inl Undefined)
         else if (index + 1) mod capacity t = start_index then Some (Inl KeyNotFound)
         else retrieve_loop_fuel n t k start_index ((index + 1) mod capacity t))
      else Some (Inl KeyNotFound))"

fun remove_loop_fuel ::
    "nat \<Rightarrow> ('k, 'v) HashTableLinearProbing \<Rightarrow> 'k \<Rightarrow> nat \<Rightarrow> nat \<Rightarrow>
       (error + bool \<times> ('k, 'v) HashTableLinearProbing) option" where
  "remove_loop_fuel 0 t k start_index index = None"
| "remove_loop_fuel (Suc n) t k start_index index =
     (if length (table t) \<le> index then Some (Inl Undefined)
      else if occupied (table t ! index) then
        (if key (table t ! index) = k \<and> active (table t ! index)
         then Some (Inr (True,
                t\<lparr>table := (table t)[index := (table t ! index)\<lparr>active := False\<rparr>],
                  size_ht := size_ht t - 1\<rparr>))
         else if capacity t = 0 then Some (Inl Undefined)
         else if (index + 1) mod capacity t = start_index then Some (Inr (False, t))
         else remove_loop_fuel n t k start_index ((index + 1) mod capacity t))
      else Some (Inr (False, t)))"

subsection \<open>Tables and probe paths\<close>

text \<open>
  The constructor makes the vector as long as the capacity; with a positive capacity
  this is the shape of table that the operations are defined on.
\<close>

definition well_formed :: "('k, 'v) HashTableLinearProbing \<Rightarrow> bool" where
  "well_formed t \<longleftrightarrow> 0 < capacity t \<and> length (table t) = capacity t"

text \<open>
  The probe path of a key starts at its home index; \<open>probe c s n\<close> is the index
  reached from \<open>s\<close> after \<open>n\<close> steps of \<open>(index + 1) % capacity\<close>.
\<close>

definition home :: "('k \<Rightarrow> nat) \<Rightarrow> ('k, 'v) HashTableLinearProbing \<Rightarrow> 'k \<Rightarrow> nat" where
  "home hashObj t k = hashObj k mod capacity t"

definition probe :: "nat \<Rightarrow> nat \<Rightarrow> nat \<Rightarrow> nat" where
  "probe c s n = (s + n) mod c"

text \<open>
  The tests the loops make on a slot: the loop of \<open>insert\<close> walks on from a slot that is
  \<open>blocked\<close>, the loops of \<open>retrieve\<close> and \<open>remove\<close> walk on from a slot that
  \<open>passes\<close> and stop with success at a \<open>hit\<close>.
\<close>

definition blocked :: "('k, 'v) HashTableLinearProbing \<Rightarrow> 'k \<Rightarrow> nat \<Rightarrow> bool" where
  "blocked t k i \<longleftrightarrow> occupied (table t ! i) \<and> key (table t ! i) \<noteq> k"

definition passes :: "('k, 'v) HashTableLinearProbing \<Rightarrow> 'k \<Rightarrow> nat \<Rightarrow> bool" where
  "passes t k i \<longleftrightarrow>
     occupied (table t ! i) \<and> \<not> (key (table t ! i) = k \<and> active (table t ! i))"

definition hit :: "('k, 'v) HashTableLinearProbing \<Rightarrow> 'k \<Rightarrow> nat \<Rightarrow> bool" where
  "hit t k i \<longleftrightarrow> occupied (table t ! i) \<and> key (table t ! i) = k \<and> active (table t ! i)"

text \<open>The two changes the operations make to a table.\<close>

definition store :: "('k, 'v) HashTableLinearProbing \<Rightarrow> nat \<Rightarrow> 'k \<Rightarrow> 'v \<Rightarrow> ('k, 'v) HashTableLinearProbing" where
  "store t i k v = t\<lparr>table := (table t)[i := Entry_kv k v]\<rparr>"

definition deactivate :: "('k, 'v) HashTableLinearProbing \<Rightarrow> nat \<Rightarrow> ('k, 'v) HashTableLinearProbing" where
  "deactivate t i = t\<lparr>table := (table t)[i := (table t ! i)\<lparr>active := False\<rparr>],
                       size_ht := size_ht t - 1\<rparr>"

text \<open>
  What every table built by the constructor and the operations satisfies: each occupied
  slot is reached from the home index of its key through occupied slots only, and no
  two occupied slots hold the same key.
\<close>

definition chain :: "('k \<Rightarrow> nat) \<Rightarrow> ('k, 'v) HashTableLinearProbing \<Rightarrow> bool" where
  "chain hashObj t \<longleftrightarrow>
     (\<forall>i<capacity t. occupied (table t ! i) \<longrightarrow>
        (\<exists>n<capacity t.
           i = probe (capacity t) (home hashObj t (key (table t ! i))) n \<and>
           (\<forall>m<n. occupied (table t !
                      probe (capacity t) (home hashObj t (key (table t ! i))) m))))"

definition distinct_keys :: "('k, 'v) HashTableLinearProbing \<Rightarrow> bool" where
  "distinct_keys t \<longleftrightarrow>
     (\<forall>i<capacity t. \<forall>j<capacity t.
        occupied (table t ! i) \<longrightarrow> occupied (table t ! j) \<longrightarrow>
        key (table t ! i) = key (table t ! j) \<longrightarrow> i = j)"

definition table_inv :: "('k \<Rightarrow> nat) \<Rightarrow> ('k, 'v) HashTableLinearProbing \<Rightarrow> bool" where
  "table_inv hashObj t \<longleftrightarrow> well_formed t \<and> chain hashObj t \<and> distinct_keys t"

section \<open>Properties\<close>

subsection \<open>Probe indices\<close>

lemma probe_less: "0 < c \<Longrightarrow> probe c s n < c"
  by (simp add: probe_def)

lemma probe_not_le: "0 < c \<Longrightarrow> \<not> c \<le> probe c s n"
  by (simp add: probe_def not_le)

lemma probe_0: "s < c \<Longrightarrow> probe c s 0 = s"
  by (simp add: probe_def)

lemma probe_Suc: "Suc (probe c s n) mod c = probe c s (Suc n)"
  by (simp add: probe_def mod_Suc_eq)

lemma probe_inj:
  assumes "n < c" "m < c" "probe c s n = probe c s m"
  shows "n = m"
proof -
  have *: "a \<le> b \<Longrightarrow> b < c \<Longrightarrow> (s + a) mod c = (s + b) mod c \<Longrightarrow> a = b" for a b :: nat
  proof -
    assume h: "a \<le> b" "b < c" "(s + a) mod c = (s + b) mod c"
    then have "c dvd (s + b) - (s + a)"
      by (metis add_le_cancel_left mod_eq_dvd_iff_nat)
    then have "c dvd b - a" by simp
    moreover have "b - a < c" using h by simp
    ultimately have "b - a = 0" by (meson dvd_imp_le not_less neq0_conv)
    then show "a = b" using h by simp
  qed
  show ?thesis
  proof (cases "n \<le> m")
    case True
    then show ?thesis using assms * [of n m] by (simp add: probe_def)
  next
    case False
    then have "m \<le> n" by simp
    then show ?thesis using assms * [of m n] by (simp add: probe_def)
  qed
qed

lemma probe_wrap:
  assumes "s < c" "n < c"
  shows "probe c s (Suc n) = s \<longleftrightarrow> Suc n = c"
proof
  assume "Suc n = c"
  then show "probe c s (Suc n) = s" using assms by (simp add: probe_def)
next
  assume h: "probe c s (Suc n) = s"
  show "Suc n = c"
  proof (rule ccontr)
    assume "Suc n \<noteq> c"
    then have "Suc n < c" using assms by simp
    moreover have "probe c s (Suc n) = probe c s 0" using h assms by (simp add: probe_def)
    ultimately have "Suc n = 0" using probe_inj [of "Suc n" c 0 s] assms by simp
    then show False by simp
  qed
qed

subsection \<open>The loops as a search along the probe path\<close>

text \<open>A result of a cut-off loop is the result of the loop itself.\<close>

lemma insert_loop_fuel_sound:
  "insert_loop_fuel n t k s i = Some r \<Longrightarrow> insert_loop t k s i = Some r"
proof (induction n arbitrary: i)
  case 0
  then show ?case by simp
next
  case (Suc n)
  then show ?case
    by (subst insert_loop.simps) (auto split: if_splits)
qed

lemma retrieve_loop_fuel_sound:
  "retrieve_loop_fuel n t k s i = Some r \<Longrightarrow> retrieve_loop t k s i = Some r"
proof (induction n arbitrary: i)
  case 0
  then show ?case by simp
next
  case (Suc n)
  then show ?case
    by (subst retrieve_loop.simps) (auto split: if_splits)
qed

lemma remove_loop_fuel_sound:
  "remove_loop_fuel n t k s i = Some r \<Longrightarrow> remove_loop t k s i = Some r"
proof (induction n arbitrary: i)
  case 0
  then show ?case by simp
next
  case (Suc n)
  then show ?case
    by (subst remove_loop.simps) (auto split: if_splits)
qed

text \<open>
  On a well-formed table the loop started \<open>n\<close> steps along the path needs to look at
  \<open>capacity - n\<close> slots at most, and stops at the first slot of the rest of the path
  that fails the test of the loop.
\<close>

lemma insert_loop_fuel_find:
  assumes "well_formed t" "s < capacity t" "n < capacity t"
  shows "insert_loop_fuel (capacity t - n) t k s (probe (capacity t) s n) =
    Some (case find (\<lambda>m. \<not> blocked t k (probe (capacity t) s m)) [n..<capacity t] of
            None \<Rightarrow> Inl TableFull | Some m \<Rightarrow> Inr (probe (capacity t) s m))"
  using assms
proof (induction "capacity t - n" arbitrary: n)
  case 0
  then show ?case by simp
next
  case (Suc d)
  have c: "0 < capacity t" and l: "length (table t) = capacity t"
    using Suc.prems by (simp_all add: well_formed_def)
  have pl: "probe (capacity t) s n < length (table t)" using c l by (simp add: probe_less)
  have up: "[n..<capacity t] = n # [Suc n..<capacity t]"
    using Suc.prems by (simp add: upt_conv_Cons)
  have fu: "capacity t - n = Suc (capacity t - Suc n)" using Suc.prems by simp
  show ?case
  proof (cases "blocked t k (probe (capacity t) s n)")
    case False
    then show ?thesis using pl by (auto simp add: fu up blocked_def)
  next
    case True
    show ?thesis
    proof (cases "Suc n = capacity t")
      case True
      then have "probe (capacity t) s (Suc n) = s" using probe_wrap Suc.prems by blast
      then show ?thesis using \<open>blocked t k (probe (capacity t) s n)\<close> pl c True
        by (simp add: fu up probe_Suc blocked_def)
    next
      case False
      then have w: "probe (capacity t) s (Suc n) \<noteq> s" using probe_wrap Suc.prems by blast
      have lt: "Suc n < capacity t" using False Suc.prems by simp
      have d: "d = capacity t - Suc n" using Suc.hyps(2) by simp
      have "insert_loop_fuel (capacity t - n) t k s (probe (capacity t) s n) =
            insert_loop_fuel (capacity t - Suc n) t k s (probe (capacity t) s (Suc n))"
        using True pl c w by (simp add: fu probe_Suc blocked_def)
      also have "\<dots> = Some (case find (\<lambda>m. \<not> blocked t k (probe (capacity t) s m)) [Suc n..<capacity t] of
            None \<Rightarrow> Inl TableFull | Some m \<Rightarrow> Inr (probe (capacity t) s m))"
        using Suc.hyps(1) [OF d Suc.prems(1) Suc.prems(2) lt] .
      finally show ?thesis using True by (simp add: up)
    qed
  qed
qed

lemma retrieve_loop_fuel_find:
  assumes "well_formed t" "s < capacity t" "n < capacity t"
  shows "retrieve_loop_fuel (capacity t - n) t k s (probe (capacity t) s n) =
    Some (case find (\<lambda>m. \<not> passes t k (probe (capacity t) s m)) [n..<capacity t] of
            None \<Rightarrow> Inl KeyNotFound
          | Some m \<Rightarrow> if occupied (table t ! probe (capacity t) s m)
                      then Inr (val (table t ! probe (capacity t) s m)) else Inl KeyNotFound)"
  using assms
proof (induction "capacity t - n" arbitrary: n)
  case 0
  then show ?case by simp
next
  case (Suc d)
  have c: "0 < capacity t" and l: "length (table t) = capacity t"
    using Suc.prems by (simp_all add: well_formed_def)
  have pl: "probe (capacity t) s n < length (table t)" using c l by (simp add: probe_less)
  have up: "[n..<capacity t] = n # [Suc n..<capacity t]"
    using Suc.prems by (simp add: upt_conv_Cons)
  have fu: "capacity t - n = Suc (capacity t - Suc n)" using Suc.prems by simp
  show ?case
  proof (cases "passes t k (probe (capacity t) s n)")
    case False
    then show ?thesis using pl by (auto simp add: fu up passes_def)
  next
    case True
    show ?thesis
    proof (cases "Suc n = capacity t")
      case True
      then have "probe (capacity t) s (Suc n) = s" using probe_wrap Suc.prems by blast
      then show ?thesis using \<open>passes t k (probe (capacity t) s n)\<close> pl c True
        by (auto simp add: fu up probe_Suc passes_def)
    next
      case False
      then have w: "probe (capacity t) s (Suc n) \<noteq> s" using probe_wrap Suc.prems by blast
      have lt: "Suc n < capacity t" using False Suc.prems by simp
      have d: "d = capacity t - Suc n" using Suc.hyps(2) by simp
      have "retrieve_loop_fuel (capacity t - n) t k s (probe (capacity t) s n) =
            retrieve_loop_fuel (capacity t - Suc n) t k s (probe (capacity t) s (Suc n))"
        using True pl c w by (auto simp add: fu probe_Suc passes_def)
      also note Suc.hyps(1) [OF d Suc.prems(1) Suc.prems(2) lt]
      finally show ?thesis using True by (simp add: up)
    qed
  qed
qed

lemma remove_loop_fuel_find:
  assumes "well_formed t" "s < capacity t" "n < capacity t"
  shows "remove_loop_fuel (capacity t - n) t k s (probe (capacity t) s n) =
    Some (case find (\<lambda>m. \<not> passes t k (probe (capacity t) s m)) [n..<capacity t] of
            None \<Rightarrow> Inr (False, t)
          | Some m \<Rightarrow> if occupied (table t ! probe (capacity t) s m)
                      then Inr (True, deactivate t (probe (capacity t) s m)) else Inr (False, t))"
  using assms
proof (induction "capacity t - n" arbitrary: n)
  case 0
  then show ?case by simp
next
  case (Suc d)
  have c: "0 < capacity t" and l: "length (table t) = capacity t"
    using Suc.prems by (simp_all add: well_formed_def)
  have pl: "probe (capacity t) s n < length (table t)" using c l by (simp add: probe_less)
  have up: "[n..<capacity t] = n # [Suc n..<capacity t]"
    using Suc.prems by (simp add: upt_conv_Cons)
  have fu: "capacity t - n = Suc (capacity t - Suc n)" using Suc.prems by simp
  show ?case
  proof (cases "passes t k (probe (capacity t) s n)")
    case False
    then show ?thesis using pl by (auto simp add: fu up passes_def deactivate_def)
  next
    case True
    show ?thesis
    proof (cases "Suc n = capacity t")
      case True
      then have "probe (capacity t) s (Suc n) = s" using probe_wrap Suc.prems by blast
      then show ?thesis using \<open>passes t k (probe (capacity t) s n)\<close> pl c True
        by (auto simp add: fu up probe_Suc passes_def)
    next
      case False
      then have w: "probe (capacity t) s (Suc n) \<noteq> s" using probe_wrap Suc.prems by blast
      have lt: "Suc n < capacity t" using False Suc.prems by simp
      have d: "d = capacity t - Suc n" using Suc.hyps(2) by simp
      have "remove_loop_fuel (capacity t - n) t k s (probe (capacity t) s n) =
            remove_loop_fuel (capacity t - Suc n) t k s (probe (capacity t) s (Suc n))"
        using True pl c w by (auto simp add: fu probe_Suc passes_def)
      also note Suc.hyps(1) [OF d Suc.prems(1) Suc.prems(2) lt]
      finally show ?thesis using True by (simp add: up)
    qed
  qed
qed

lemma insert_loop_find:
  assumes "well_formed t" "s < capacity t"
  shows "insert_loop t k s s =
    Some (case find (\<lambda>m. \<not> blocked t k (probe (capacity t) s m)) [0..<capacity t] of
            None \<Rightarrow> Inl TableFull | Some m \<Rightarrow> Inr (probe (capacity t) s m))"
proof -
  have "0 < capacity t" using assms by (simp add: well_formed_def)
  from insert_loop_fuel_find [OF assms this, of k]
  show ?thesis using assms by (auto intro: insert_loop_fuel_sound simp: probe_0)
qed

lemma retrieve_loop_find:
  assumes "well_formed t" "s < capacity t"
  shows "retrieve_loop t k s s =
    Some (case find (\<lambda>m. \<not> passes t k (probe (capacity t) s m)) [0..<capacity t] of
            None \<Rightarrow> Inl KeyNotFound
          | Some m \<Rightarrow> if occupied (table t ! probe (capacity t) s m)
                      then Inr (val (table t ! probe (capacity t) s m)) else Inl KeyNotFound)"
proof -
  have "0 < capacity t" using assms by (simp add: well_formed_def)
  from retrieve_loop_fuel_find [OF assms this, of k]
  show ?thesis using assms by (auto intro: retrieve_loop_fuel_sound simp: probe_0)
qed

lemma remove_loop_find:
  assumes "well_formed t" "s < capacity t"
  shows "remove_loop t k s s =
    Some (case find (\<lambda>m. \<not> passes t k (probe (capacity t) s m)) [0..<capacity t] of
            None \<Rightarrow> Inr (False, t)
          | Some m \<Rightarrow> if occupied (table t ! probe (capacity t) s m)
                      then Inr (True, deactivate t (probe (capacity t) s m)) else Inr (False, t))"
proof -
  have "0 < capacity t" using assms by (simp add: well_formed_def)
  from remove_loop_fuel_find [OF assms this, of k]
  show ?thesis using assms by (auto intro: remove_loop_fuel_sound simp: probe_0)
qed

lemma hashFunction_home: "well_formed t \<Longrightarrow> hashFunction h t k = Inr (home h t k)"
  by (simp add: hashFunction_def home_def well_formed_def)

lemma home_less: "well_formed t \<Longrightarrow> home h t k < capacity t"
  by (simp add: home_def well_formed_def)

lemma insert_loop_bounded:
  assumes "well_formed t"
  shows "\<exists>r. insert_loop_fuel (capacity t) t k (home h t k) (home h t k) = Some r \<and>
             insert_loop t k (home h t k) (home h t k) = Some r"
proof -
  have c: "0 < capacity t" using assms by (simp add: well_formed_def)
  have hl: "home h t k < capacity t" using assms by (rule home_less)
  from insert_loop_fuel_find [OF assms hl c, of k]
  show ?thesis using hl
    by (auto simp add: probe_0 intro: insert_loop_fuel_sound)
qed

lemma retrieve_loop_bounded:
  assumes "well_formed t"
  shows "\<exists>r. retrieve_loop_fuel (capacity t) t k (home h t k) (home h t k) = Some r \<and>
             retrieve_loop t k (home h t k) (home h t k) = Some r"
proof -
  have c: "0 < capacity t" using assms by (simp add: well_formed_def)
  have hl: "home h t k < capacity t" using assms by (rule home_less)
  from retrieve_loop_fuel_find [OF assms hl c, of k]
  show ?thesis using hl
    by (auto simp add: probe_0 intro: retrieve_loop_fuel_sound)
qed

lemma remove_loop_bounded:
  assumes "well_formed t"
  shows "\<exists>r. remove_loop_fuel (capacity t) t k (home h t k) (home h t k) = Some r \<and>
             remove_loop t k (home h t k) (home h t k) = Some r"
proof -
  have c: "0 < capacity t" using assms by (simp add: well_formed_def)
  have hl: "home h t k < capacity t" using assms by (rule home_less)
  from remove_loop_fuel_find [OF assms hl c, of k]
  show ?thesis using hl
    by (auto simp add: probe_0 intro: remove_loop_fuel_sound)
qed

subsection \<open>The operations on a well-formed table\<close>

lemma find_upt_Some:
  "find P [0..<c] = Some n \<longleftrightarrow> n < c \<and> P n \<and> (\<forall>m<n. \<not> P m)"
  by (auto simp add: find_Some_iff)

lemma find_upt_None: "find P [0..<c] = None \<longleftrightarrow> (\<forall>m<c. \<not> P m)"
  by (auto simp add: find_None_iff)

lemma store_simps:
  "capacity (store t i k v) = capacity t"
  "size_ht (store t i k v) = size_ht t"
  "table (store t i k v) = (table t)[i := Entry_kv k v]"
  "well_formed (store t i k v) = well_formed t"
  "home h (store t i k v) k' = home h t k'"
  by (simp_all add: store_def well_formed_def home_def)

lemma deactivate_simps:
  "capacity (deactivate t i) = capacity t"
  "size_ht (deactivate t i) = size_ht t - 1"
  "table (deactivate t i) = (table t)[i := (table t ! i)\<lparr>active := False\<rparr>]"
  "well_formed (deactivate t i) = well_formed t"
  "home h (deactivate t i) k' = home h t k'"
  by (simp_all add: deactivate_def well_formed_def home_def)

lemma insert_ht_find:
  assumes "well_formed t"
  shows "insert_ht h t k v =
    Some (case find (\<lambda>m. \<not> blocked t k (probe (capacity t) (home h t k) m)) [0..<capacity t] of
            None \<Rightarrow> Inl TableFull
          | Some m \<Rightarrow> Inr (store t (probe (capacity t) (home h t k) m) k v))"
proof -
  have c: "0 < capacity t" and l: "length (table t) = capacity t"
    using assms by (simp_all add: well_formed_def)
  show ?thesis
    using c l
    by (simp add: insert_ht_def hashFunction_home [OF assms]
        insert_loop_find [OF assms home_less [OF assms]] probe_not_le probe_less store_def Entry_kv_def Let_def
        split: option.split)
qed

lemma retrieve_find:
  assumes "well_formed t"
  shows "retrieve h t k =
    Some (case find (\<lambda>m. \<not> passes t k (probe (capacity t) (home h t k) m)) [0..<capacity t] of
            None \<Rightarrow> Inl KeyNotFound
          | Some m \<Rightarrow> if occupied (table t ! probe (capacity t) (home h t k) m)
                      then Inr (val (table t ! probe (capacity t) (home h t k) m))
                      else Inl KeyNotFound)"
  by (simp add: retrieve_def hashFunction_home [OF assms]
        retrieve_loop_find [OF assms home_less [OF assms]])

lemma remove_ht_find:
  assumes "well_formed t"
  shows "remove_ht h t k =
    Some (case find (\<lambda>m. \<not> passes t k (probe (capacity t) (home h t k) m)) [0..<capacity t] of
            None \<Rightarrow> Inr (False, t)
          | Some m \<Rightarrow> if occupied (table t ! probe (capacity t) (home h t k) m)
                      then Inr (True, deactivate t (probe (capacity t) (home h t k) m))
                      else Inr (False, t))"
  by (simp add: remove_ht_def hashFunction_home [OF assms]
        remove_loop_find [OF assms home_less [OF assms]])

lemma insert_ht_Inr:
  assumes "well_formed t" "insert_ht h t k v = Some (Inr t')"
  shows "\<exists>n<capacity t.
           (\<forall>m<n. blocked t k (probe (capacity t) (home h t k) m)) \<and>
           \<not> blocked t k (probe (capacity t) (home h t k) n) \<and>
           t' = store t (probe (capacity t) (home h t k) n) k v"
  using assms(2) unfolding insert_ht_find [OF assms(1)]
  by (auto split: option.splits simp add: find_upt_Some)

lemma insert_ht_Inl:
  assumes "well_formed t" "insert_ht h t k v = Some (Inl e)"
  shows "e = TableFull \<and> (\<forall>m<capacity t. blocked t k (probe (capacity t) (home h t k) m))"
  using assms(2) unfolding insert_ht_find [OF assms(1)]
  by (auto split: option.splits simp add: find_upt_None)

lemma insert_ht_first:
  assumes "well_formed t" "n < capacity t"
    "\<forall>m<n. blocked t k (probe (capacity t) (home h t k) m)"
    "\<not> blocked t k (probe (capacity t) (home h t k) n)"
  shows "insert_ht h t k v = Some (Inr (store t (probe (capacity t) (home h t k) n) k v))"
proof -
  have "find (\<lambda>m. \<not> blocked t k (probe (capacity t) (home h t k) m)) [0..<capacity t] = Some n"
    using assms by (simp add: find_upt_Some)
  then show ?thesis by (simp add: insert_ht_find [OF assms(1)])
qed

lemma retrieve_first:
  assumes "well_formed t" "n < capacity t"
    "\<forall>m<n. passes t k (probe (capacity t) (home h t k) m)"
    "hit t k (probe (capacity t) (home h t k) n)"
  shows "retrieve h t k = Some (Inr (val (table t ! probe (capacity t) (home h t k) n)))"
proof -
  have "find (\<lambda>m. \<not> passes t k (probe (capacity t) (home h t k) m)) [0..<capacity t] = Some n"
    using assms by (simp add: find_upt_Some hit_def passes_def)
  then show ?thesis using assms(4) by (simp add: retrieve_find [OF assms(1)] hit_def)
qed

lemma remove_ht_first:
  assumes "well_formed t" "n < capacity t"
    "\<forall>m<n. passes t k (probe (capacity t) (home h t k) m)"
    "hit t k (probe (capacity t) (home h t k) n)"
  shows "remove_ht h t k = Some (Inr (True, deactivate t (probe (capacity t) (home h t k) n)))"
proof -
  have "find (\<lambda>m. \<not> passes t k (probe (capacity t) (home h t k) m)) [0..<capacity t] = Some n"
    using assms by (simp add: find_upt_Some hit_def passes_def)
  then show ?thesis using assms(4) by (simp add: remove_ht_find [OF assms(1)] hit_def)
qed

lemma retrieve_no_hit:
  assumes "well_formed t" "\<forall>i<capacity t. \<not> hit t k i"
  shows "retrieve h t k = Some (Inl KeyNotFound)"
proof -
  have c: "0 < capacity t" using assms by (simp add: well_formed_def)
  show ?thesis
    using assms(2) c unfolding retrieve_find [OF assms(1)]
    by (auto split: option.splits simp add: find_upt_Some passes_def hit_def probe_less)
qed

lemma remove_ht_no_hit:
  assumes "well_formed t" "\<forall>i<capacity t. \<not> hit t k i"
  shows "remove_ht h t k = Some (Inr (False, t))"
proof -
  have c: "0 < capacity t" using assms by (simp add: well_formed_def)
  show ?thesis
    using assms(2) c unfolding remove_ht_find [OF assms(1)]
    by (auto split: option.splits simp add: find_upt_Some passes_def hit_def probe_less)
qed

lemma remove_ht_cases:
  assumes "well_formed t"
  shows "remove_ht h t k = Some (Inr (False, t)) \<or>
         (\<exists>i<capacity t. hit t k i \<and> remove_ht h t k = Some (Inr (True, deactivate t i)))"
proof -
  have c: "0 < capacity t" using assms by (simp add: well_formed_def)
  show ?thesis
  proof (cases "find (\<lambda>m. \<not> passes t k (probe (capacity t) (home h t k) m)) [0..<capacity t]")
    case None
    then show ?thesis by (simp add: remove_ht_find [OF assms(1)])
  next
    case (Some n)
    show ?thesis
    proof (cases "occupied (table t ! probe (capacity t) (home h t k) n)")
      case False
      then show ?thesis using Some by (simp add: remove_ht_find [OF assms(1)])
    next
      case True
      then have "hit t k (probe (capacity t) (home h t k) n)"
        using Some by (simp add: find_upt_Some passes_def hit_def)
      moreover have "probe (capacity t) (home h t k) n < capacity t"
        using c by (rule probe_less)
      moreover have "remove_ht h t k =
          Some (Inr (True, deactivate t (probe (capacity t) (home h t k) n)))"
        using Some True by (simp add: remove_ht_find [OF assms(1)])
      ultimately show ?thesis by blast
    qed
  qed
qed

lemma insert_ht_not_undefined:
  "well_formed t \<Longrightarrow> insert_ht h t k v \<noteq> Some (Inl Undefined) \<and> insert_ht h t k v \<noteq> None"
  by (simp add: insert_ht_find split: option.split)

lemma retrieve_not_undefined:
  "well_formed t \<Longrightarrow> retrieve h t k \<noteq> Some (Inl Undefined) \<and> retrieve h t k \<noteq> None"
  by (simp add: retrieve_find split: option.split)

lemma remove_ht_not_undefined:
  "well_formed t \<Longrightarrow> remove_ht h t k \<noteq> Some (Inl Undefined) \<and> remove_ht h t k \<noteq> None"
  by (simp add: remove_ht_find split: option.split)

lemma exec_total:
  assumes "well_formed t"
  shows "\<exists>t'. exec h t c = Some t'"
proof (cases c)
  case (Insert k v)
  then show ?thesis
    by (simp add: insert_ht_find [OF assms] split: option.split)
next
  case (Retrieve k)
  then show ?thesis
    by (simp add: retrieve_find [OF assms] split: option.split)
next
  case (Remove k)
  then show ?thesis
    by (simp add: remove_ht_find [OF assms] split: option.split)
qed

text \<open>No call of \<open>insert\<close> changes the counter.\<close>

lemma insert_ht_size:
  "insert_ht h t k v = Some (Inr t') \<Longrightarrow> size_ht t' = size_ht t"
  by (auto simp add: insert_ht_def Let_def Entry_kv_def split: sum.splits option.splits if_splits)

lemma insert_ht_capacity_0:
  "capacity t = 0 \<Longrightarrow> insert_ht h t k v = Some (Inl Undefined)"
  by (simp add: insert_ht_def hashFunction_def)

subsection \<open>Looking up after an insertion\<close>

lemma blocked_store_other:
  "j \<noteq> i \<Longrightarrow> blocked t k j \<Longrightarrow> passes (store t i k v) k j"
  by (simp add: blocked_def passes_def store_simps)

lemma hit_store:
  "i < length (table t) \<Longrightarrow> hit (store t i k v) k i"
  by (simp add: hit_def store_simps Entry_kv_def)

lemma retrieve_after_insert:
  assumes "well_formed t" "insert_ht hashObj t k v = Some (Inr t')"
  shows "retrieve hashObj t' k = Some (Inr v)"
proof -
  let ?c = "capacity t" and ?s = "home hashObj t k"
  from insert_ht_Inr [OF assms] obtain n where n: "n < ?c"
    and before: "\<forall>m<n. blocked t k (probe ?c ?s m)"
    and t': "t' = store t (probe ?c ?s n) k v"
    by blast
  have c: "0 < ?c" and l: "length (table t) = ?c"
    using assms(1) by (simp_all add: well_formed_def)
  have idx: "probe ?c ?s n < length (table t)" using c l by (simp add: probe_less)
  have wf': "well_formed t'" using assms(1) t' by (simp add: store_simps)
  have pass: "\<forall>m<n. passes t' k (probe (capacity t') (home hashObj t' k) m)"
  proof (intro allI impI)
    fix m assume m: "m < n"
    then have "probe ?c ?s m \<noteq> probe ?c ?s n"
      using probe_inj [of m ?c n ?s] n by auto
    then show "passes t' k (probe (capacity t') (home hashObj t' k) m)"
      using before m t' by (simp add: store_simps blocked_store_other)
  qed
  have "hit t' k (probe (capacity t') (home hashObj t' k) n)"
    using idx t' by (simp add: store_simps hit_store)
  from retrieve_first [OF wf' _ pass this] n t' idx
  show ?thesis by (simp add: store_simps Entry_kv_def)
qed

subsection \<open>The invariant\<close>

lemma table_inv_init:
  "0 < cap \<Longrightarrow> table_inv h (HashTableLinearProbing_init dk dv cap)"
  by (simp add: table_inv_def well_formed_def chain_def distinct_keys_def
      HashTableLinearProbing_init_def Entry_empty_def)

lemma chainD:
  "chain h t \<Longrightarrow> i < capacity t \<Longrightarrow> occupied (table t ! i) \<Longrightarrow>
   \<exists>n<capacity t.
      i = probe (capacity t) (home h t (key (table t ! i))) n \<and>
      (\<forall>m<n. occupied (table t ! probe (capacity t) (home h t (key (table t ! i))) m))"
  by (simp add: chain_def)

lemma distinct_keysD:
  "distinct_keys t \<Longrightarrow> i < capacity t \<Longrightarrow> j < capacity t \<Longrightarrow>
   occupied (table t ! i) \<Longrightarrow> occupied (table t ! j) \<Longrightarrow>
   key (table t ! i) = key (table t ! j) \<Longrightarrow> i = j"
  by (simp add: distinct_keys_def)

text \<open>Under the invariant an occupied slot that holds \<open>k\<close> is the slot where the probe of
  \<open>insert\<close> for \<open>k\<close> stops.\<close>

lemma insert_slot_unique:
  assumes inv: "table_inv h t"
    and n: "n < capacity t"
    and before: "\<forall>m<n. blocked t k (probe (capacity t) (home h t k) m)"
    and stop: "\<not> blocked t k (probe (capacity t) (home h t k) n)"
    and j: "j < capacity t" "occupied (table t ! j)" "key (table t ! j) = k"
  shows "j = probe (capacity t) (home h t k) n"
proof -
  let ?p = "probe (capacity t) (home h t k)"
  have c: "0 < capacity t" using inv by (simp add: table_inv_def well_formed_def)
  have ch: "chain h t" and di: "distinct_keys t"
    using inv by (simp_all add: table_inv_def)
  from chainD [OF ch j(1) j(2)] j(3) obtain nj where nj: "nj < capacity t" "j = ?p nj"
    and path: "\<forall>m<nj. occupied (table t ! ?p m)"
    by auto
  consider "nj < n" | "nj = n" | "n < nj" by linarith
  then show ?thesis
  proof cases
    case 1
    then have "blocked t k (?p nj)" using before by simp
    then show ?thesis using j nj by (simp add: blocked_def)
  next
    case 2
    then show ?thesis using nj by simp
  next
    case 3
    then have "occupied (table t ! ?p n)" using path by simp
    then have "key (table t ! ?p n) = k" using stop by (simp add: blocked_def)
    moreover have "?p n < capacity t" using c by (rule probe_less)
    ultimately show ?thesis
      using distinct_keysD [OF di j(1) _ j(2) \<open>occupied (table t ! ?p n)\<close>] j(3) by simp
  qed
qed

lemma table_inv_store:
  assumes inv: "table_inv h t"
    and n: "n < capacity t"
    and before: "\<forall>m<n. blocked t k (probe (capacity t) (home h t k) m)"
    and stop: "\<not> blocked t k (probe (capacity t) (home h t k) n)"
  shows "table_inv h (store t (probe (capacity t) (home h t k) n) k v)"
proof -
  let ?c = "capacity t"
  let ?p = "probe ?c (home h t k)"
  let ?t' = "store t (?p n) k v"
  have wf: "well_formed t" and ch: "chain h t" and di: "distinct_keys t"
    using inv by (simp_all add: table_inv_def)
  have c: "0 < ?c" and l: "length (table t) = ?c"
    using wf by (simp_all add: well_formed_def)
  have idx: "?p n < ?c" using c by (rule probe_less)
  have at: "table ?t' ! ?p n = Entry_kv k v" using idx l by (simp add: store_simps)
  have other: "i \<noteq> ?p n \<Longrightarrow> table ?t' ! i = table t ! i" for i
    by (simp add: store_simps)
  have mono: "occupied (table t ! i) \<Longrightarrow> occupied (table ?t' ! i)" if "i < ?c" for i
    using at other [of i] by (cases "i = ?p n") (simp_all add: Entry_kv_def)
  have old: "occupied (table t ! i) \<and> key (table t ! i) = key (table ?t' ! i)"
    if "i < ?c" "i \<noteq> ?p n" "occupied (table ?t' ! i)" for i
    using that other [of i] by simp
  have "chain h ?t'"
    unfolding chain_def store_simps(1) store_simps(5)
  proof (intro allI impI)
    fix i assume i: "i < ?c" and occ: "occupied (table ?t' ! i)"
    show "\<exists>n'<?c. i = probe ?c (home h t (key (table ?t' ! i))) n' \<and>
            (\<forall>m<n'. occupied (table ?t' ! probe ?c (home h t (key (table ?t' ! i))) m))"
    proof (cases "i = ?p n")
      case True
      have "\<forall>m<n. occupied (table ?t' ! ?p m)"
      proof (intro allI impI)
        fix m assume "m < n"
        then have "occupied (table t ! ?p m)" using before by (simp add: blocked_def)
        then show "occupied (table ?t' ! ?p m)" using mono [OF probe_less [OF c]] by simp
      qed
      then show ?thesis using True at n by (auto simp add: Entry_kv_def)
    next
      case False
      from old [OF i False occ] have o: "occupied (table t ! i)"
        and ke: "key (table ?t' ! i) = key (table t ! i)" by simp_all
      from chainD [OF ch i o] obtain n' where n': "n' < ?c"
        "i = probe ?c (home h t (key (table t ! i))) n'"
        "\<forall>m<n'. occupied (table t ! probe ?c (home h t (key (table t ! i))) m)"
        by blast
      have "\<forall>m<n'. occupied (table ?t' ! probe ?c (home h t (key (table t ! i))) m)"
        using n'(3) mono [OF probe_less [OF c]] by simp
      then show ?thesis using n' ke by auto
    qed
  qed
  moreover have "distinct_keys ?t'"
    unfolding distinct_keys_def store_simps(1)
  proof (intro allI impI)
    fix i j assume i: "i < ?c" and j: "j < ?c"
      and oi: "occupied (table ?t' ! i)" and oj: "occupied (table ?t' ! j)"
      and eq: "key (table ?t' ! i) = key (table ?t' ! j)"
    have uniq: "a = ?p n" if "a < ?c" "occupied (table t ! a)" "key (table t ! a) = k" for a
      using insert_slot_unique [OF inv n before stop that] .
    show "i = j"
    proof (cases "i = ?p n")
      case True
      show ?thesis
      proof (cases "j = ?p n")
        case True
        then show ?thesis using \<open>i = ?p n\<close> by simp
      next
        case False
        from old [OF j False oj] eq True at have "occupied (table t ! j)" "key (table t ! j) = k"
          by (simp_all add: Entry_kv_def)
        then show ?thesis using uniq [OF j] False by simp
      qed
    next
      case False
      note iF = False
      show ?thesis
      proof (cases "j = ?p n")
        case True
        from old [OF i iF oi] eq True at have "occupied (table t ! i)" "key (table t ! i) = k"
          by (simp_all add: Entry_kv_def)
        then show ?thesis using uniq [OF i] iF by simp
      next
        case False
        from old [OF i iF oi] old [OF j False oj] eq
        show ?thesis using distinct_keysD [OF di i j] by simp
      qed
    qed
  qed
  ultimately show ?thesis using wf by (simp add: table_inv_def store_simps)
qed

lemma table_inv_deactivate:
  assumes "table_inv h t"
  shows "table_inv h (deactivate t i)"
proof -
  have "occupied ((table t)[i := (table t ! i)\<lparr>active := False\<rparr>] ! j) = occupied (table t ! j)"
    and "key ((table t)[i := (table t ! i)\<lparr>active := False\<rparr>] ! j) = key (table t ! j)" for j
    by (cases "j = i"; cases "i < length (table t)"; simp add: list_update_beyond)+
  then show ?thesis
    using assms
    by (simp add: table_inv_def chain_def distinct_keys_def deactivate_simps)
qed

lemma table_inv_insert:
  assumes "table_inv h t" "insert_ht h t k v = Some (Inr t')"
  shows "table_inv h t'"
proof -
  have wf: "well_formed t" using assms(1) by (simp add: table_inv_def)
  from insert_ht_Inr [OF wf assms(2)] obtain n where "n < capacity t"
    "\<forall>m<n. blocked t k (probe (capacity t) (home h t k) m)"
    "\<not> blocked t k (probe (capacity t) (home h t k) n)"
    "t' = store t (probe (capacity t) (home h t k) n) k v"
    by blast
  then show ?thesis using table_inv_store [OF assms(1)] by simp
qed

lemma table_inv_remove:
  assumes "table_inv h t" "remove_ht h t k = Some (Inr (b, t'))"
  shows "table_inv h t'"
proof -
  have wf: "well_formed t" using assms(1) by (simp add: table_inv_def)
  from remove_ht_cases [OF wf, of h k] have "t' = t \<or> (\<exists>i. t' = deactivate t i)"
    using assms(2) by auto
  then show ?thesis using assms(1) table_inv_deactivate [OF assms(1)] by auto
qed

lemma table_inv_exec:
  assumes "table_inv h t" "exec h t c = Some t'"
  shows "table_inv h t'"
proof (cases c)
  case (Insert k v)
  then have "insert_ht h t k v = Some (Inr t') \<or> t' = t"
    using assms(2) by (simp split: option.splits sum.splits error.splits)
  then show ?thesis
    using assms(1) table_inv_insert [OF assms(1), of k v t'] by blast
next
  case (Retrieve k)
  then have "t' = t"
    using assms(2) by (simp split: option.splits sum.splits error.splits)
  then show ?thesis using assms(1) by simp
next
  case (Remove k)
  then have "\<exists>b. remove_ht h t k = Some (Inr (b, t'))"
    using assms(2) by (simp split: option.splits sum.splits prod.splits)
  then show ?thesis
    using table_inv_remove [OF assms(1), of k] by blast
qed

lemma table_inv_run:
  "table_inv h t \<Longrightarrow> run h t cs = Some t' \<Longrightarrow> table_inv h t'"
proof (induction cs arbitrary: t)
  case Nil
  then show ?case by simp
next
  case (Cons c cs)
  then show ?case
    by (auto split: option.splits dest: table_inv_exec)
qed

lemma run_init_inv:
  assumes "0 < cap" "run h (HashTableLinearProbing_init dk dv cap) cs = Some t"
  shows "table_inv h t"
  using table_inv_run [OF table_inv_init [OF assms(1)] assms(2)] .

lemma run_well_formed:
  assumes "0 < cap" "run h (HashTableLinearProbing_init dk dv cap) cs = Some t"
  shows "well_formed t"
  using run_init_inv [OF assms] by (simp add: table_inv_def)

lemma run_total_inv:
  "table_inv h t \<Longrightarrow> \<exists>t'. run h t cs = Some t'"
proof (induction cs arbitrary: t)
  case Nil
  then show ?case by simp
next
  case (Cons c cs)
  then have "well_formed t" by (simp add: table_inv_def)
  from exec_total [OF this, of h c] obtain t1 where t1: "exec h t c = Some t1" by blast
  with Cons.prems have "table_inv h t1" by (rule table_inv_exec)
  from Cons.IH [OF this] t1 show ?case by simp
qed

lemma run_total:
  "0 < cap \<Longrightarrow> \<exists>t. run h (HashTableLinearProbing_init dk dv cap) cs = Some t"
  by (rule run_total_inv [OF table_inv_init])

lemma run_capacity_0:
  "capacity t = 0 \<Longrightarrow> run h t cs = Some t' \<Longrightarrow> t' = t"
proof (cases cs)
  case Nil
  assume "run h t cs = Some t'" then show ?thesis using Nil by simp
next
  case (Cons c cs')
  assume c0: "capacity t = 0" and r: "run h t cs = Some t'"
  have "exec h t c = None"
    using c0 by (cases c) (simp_all add: insert_ht_def retrieve_def remove_ht_def hashFunction_def)
  then show ?thesis using r Cons by simp
qed

lemma insert_returns_inv:
  assumes "run h (HashTableLinearProbing_init dk dv cap) cs = Some t"
    and "insert_ht h t k v = Some (Inr t1)"
  shows "table_inv h t"
proof (cases "cap = 0")
  case True
  then have "t = HashTableLinearProbing_init dk dv cap"
    using run_capacity_0 [OF _ assms(1)] by (simp add: HashTableLinearProbing_init_def)
  then have "capacity t = 0" using True by (simp add: HashTableLinearProbing_init_def)
  then show ?thesis using assms(2) by (simp add: insert_ht_capacity_0)
next
  case False
  then show ?thesis using run_init_inv [OF _ assms(1)] by simp
qed

subsection \<open>Consequences of the invariant\<close>

lemma filter_unique:
  assumes "i < length xs" "P (xs ! i)" "\<forall>j<length xs. P (xs ! j) \<longrightarrow> j = i"
  shows "length (filter P xs) = 1"
proof -
  have "{j. j < length xs \<and> P (xs ! j)} = {i}"
    using assms by blast
  then show ?thesis by (simp add: length_filter_conv_card)
qed

lemma distinct_map_filter_nth:
  assumes "\<forall>i<length xs. \<forall>j<length xs. P (xs ! i) \<longrightarrow> P (xs ! j) \<longrightarrow> f (xs ! i) = f (xs ! j) \<longrightarrow> i = j"
  shows "distinct (map f (filter P xs))"
  using assms
proof (induction xs)
  case Nil
  then show ?case by simp
next
  case (Cons x xs)
  have tl: "\<forall>i<length xs. \<forall>j<length xs. P (xs ! i) \<longrightarrow> P (xs ! j) \<longrightarrow> f (xs ! i) = f (xs ! j) \<longrightarrow> i = j"
  proof (intro allI impI)
    fix i j assume "i < length xs" "j < length xs" "P (xs ! i)" "P (xs ! j)" "f (xs ! i) = f (xs ! j)"
    then have "Suc i = Suc j" using Cons.prems [rule_format, of "Suc i" "Suc j"] by simp
    then show "i = j" by simp
  qed
  have hd: "f x \<notin> f ` set (filter P xs)" if "P x"
  proof
    assume "f x \<in> f ` set (filter P xs)"
    then obtain y where y: "y \<in> set xs" "P y" "f x = f y" by auto
    then obtain j where j: "j < length xs" "y = xs ! j" by (auto simp add: in_set_conv_nth)
    have "0 = Suc j" using Cons.prems [rule_format, of 0 "Suc j"] that y j by simp
    then show False by simp
  qed
  show ?case using Cons.IH [OF tl] hd by simp
qed

lemma no_hit_after_deactivate:
  assumes inv: "table_inv h t" and i: "i < capacity t" "occupied (table t ! i)" "key (table t ! i) = k"
  shows "\<forall>j<capacity t. \<not> hit (deactivate t i) k j"
proof (intro allI impI)
  fix j assume j: "j < capacity t"
  have di: "distinct_keys t" and l: "length (table t) = capacity t"
    using inv by (simp_all add: table_inv_def well_formed_def)
  show "\<not> hit (deactivate t i) k j"
  proof (cases "j = i")
    case True
    then show ?thesis using i l by (simp add: hit_def deactivate_simps)
  next
    case False
    then have "\<not> (occupied (table t ! j) \<and> key (table t ! j) = k)"
      using distinct_keysD [OF di j i(1) _ i(2)] i(3) by auto
    then show ?thesis using False by (auto simp add: hit_def deactivate_simps)
  qed
qed

lemma remove_after_insert:
  assumes "table_inv h t" "insert_ht h t k v = Some (Inr t1)"
  shows "\<exists>t2. remove_ht h t1 k = Some (Inr (True, t2)) \<and>
              retrieve h t2 k = Some (Inl KeyNotFound) \<and>
              remove_ht h t2 k = Some (Inr (False, t2))"
proof -
  let ?c = "capacity t" and ?s = "home h t k"
  have wf: "well_formed t" using assms(1) by (simp add: table_inv_def)
  from insert_ht_Inr [OF wf assms(2)] obtain n where n: "n < ?c"
    and before: "\<forall>m<n. blocked t k (probe ?c ?s m)"
    and t1: "t1 = store t (probe ?c ?s n) k v"
    by blast
  have c: "0 < ?c" and l: "length (table t) = ?c"
    using wf by (simp_all add: well_formed_def)
  have idx: "probe ?c ?s n < ?c" using c by (rule probe_less)
  have inv1: "table_inv h t1" using assms by (rule table_inv_insert)
  have wf1: "well_formed t1" using inv1 by (simp add: table_inv_def)
  have c1: "capacity t1 = ?c" and s1: "home h t1 k = ?s" using t1 by (simp_all add: store_simps)
  have pass: "\<forall>m<n. passes t1 k (probe (capacity t1) (home h t1 k) m)"
  proof (intro allI impI)
    fix m assume m: "m < n"
    then have "probe ?c ?s m \<noteq> probe ?c ?s n"
      using probe_inj [of m ?c n ?s] n by auto
    then show "passes t1 k (probe (capacity t1) (home h t1 k) m)"
      using before m t1 by (simp add: store_simps blocked_store_other)
  qed
  have hit1: "hit t1 k (probe (capacity t1) (home h t1 k) n)"
    using idx l t1 by (simp add: store_simps hit_store)
  let ?t2 = "deactivate t1 (probe ?c ?s n)"
  have rem: "remove_ht h t1 k = Some (Inr (True, ?t2))"
    using remove_ht_first [OF wf1 _ pass hit1] n c1 s1 by simp
  have wf2: "well_formed ?t2" using wf1 by (simp add: deactivate_simps)
  have "\<forall>j<capacity t1. \<not> hit ?t2 k j"
    using no_hit_after_deactivate [OF inv1, of "probe ?c ?s n" k] hit1 idx c1 s1
    by (simp add: hit_def)
  then have nohit: "\<forall>j<capacity ?t2. \<not> hit ?t2 k j" by (simp add: deactivate_simps)
  from rem retrieve_no_hit [OF wf2 nohit] remove_ht_no_hit [OF wf2 nohit]
  show ?thesis by blast
qed

lemma insert_twice:
  assumes "table_inv h t" "insert_ht h t k v1 = Some (Inr t1)"
  shows "\<exists>t2. insert_ht h t1 k v2 = Some (Inr t2) \<and>
              retrieve h t2 k = Some (Inr v2) \<and>
              length (filter (\<lambda>e. occupied e \<and> active e \<and> key e = k) (table t2)) = 1"
proof -
  let ?c = "capacity t" and ?s = "home h t k"
  have wf: "well_formed t" using assms(1) by (simp add: table_inv_def)
  from insert_ht_Inr [OF wf assms(2)] obtain n where n: "n < ?c"
    and before: "\<forall>m<n. blocked t k (probe ?c ?s m)"
    and t1: "t1 = store t (probe ?c ?s n) k v1"
    by blast
  have c: "0 < ?c" and l: "length (table t) = ?c"
    using wf by (simp_all add: well_formed_def)
  have idx: "probe ?c ?s n < ?c" using c by (rule probe_less)
  have inv1: "table_inv h t1" using assms by (rule table_inv_insert)
  have wf1: "well_formed t1" using inv1 by (simp add: table_inv_def)
  have c1: "capacity t1 = ?c" and s1: "home h t1 k = ?s" using t1 by (simp_all add: store_simps)
  have before1: "\<forall>m<n. blocked t1 k (probe (capacity t1) (home h t1 k) m)"
  proof (intro allI impI)
    fix m assume m: "m < n"
    then have "probe ?c ?s m \<noteq> probe ?c ?s n"
      using probe_inj [of m ?c n ?s] n by auto
    then show "blocked t1 k (probe (capacity t1) (home h t1 k) m)"
      using before m t1 by (simp add: store_simps blocked_def)
  qed
  have stop1: "\<not> blocked t1 k (probe (capacity t1) (home h t1 k) n)"
    using idx l t1 by (simp add: store_simps blocked_def Entry_kv_def)
  let ?t2 = "store t1 (probe ?c ?s n) k v2"
  have ins: "insert_ht h t1 k v2 = Some (Inr ?t2)"
    using insert_ht_first [OF wf1 _ before1 stop1, of v2] n c1 s1 by simp
  have inv2: "table_inv h ?t2" using inv1 ins by (rule table_inv_insert)
  have ret: "retrieve h ?t2 k = Some (Inr v2)" using wf1 ins by (rule retrieve_after_insert)
  have di2: "distinct_keys ?t2" and l2: "length (table ?t2) = ?c" and c2: "capacity ?t2 = ?c"
    using inv2 c1 by (simp_all add: table_inv_def well_formed_def store_simps)
  have at: "table ?t2 ! probe ?c ?s n = Entry_kv k v2"
    using idx l t1 by (simp add: store_simps)
  have "length (filter (\<lambda>e. occupied e \<and> active e \<and> key e = k) (table ?t2)) = 1"
  proof (rule filter_unique [where i = "probe ?c ?s n"])
    show "probe ?c ?s n < length (table ?t2)" using idx l2 by simp
    show "occupied (table ?t2 ! probe ?c ?s n) \<and> active (table ?t2 ! probe ?c ?s n) \<and>
          key (table ?t2 ! probe ?c ?s n) = k"
      using at by (simp add: Entry_kv_def)
    show "\<forall>j<length (table ?t2).
            occupied (table ?t2 ! j) \<and> active (table ?t2 ! j) \<and> key (table ?t2 ! j) = k \<longrightarrow>
            j = probe ?c ?s n"
    proof (intro allI impI)
      fix j assume j: "j < length (table ?t2)"
        and p: "occupied (table ?t2 ! j) \<and> active (table ?t2 ! j) \<and> key (table ?t2 ! j) = k"
      have "j < capacity ?t2" "probe ?c ?s n < capacity ?t2" using j idx l2 c2 by simp_all
      from distinct_keysD [OF di2 this] p at show "j = probe ?c ?s n"
        by (simp add: Entry_kv_def)
    qed
  qed
  with ins ret show ?thesis by blast
qed


subsection \<open>The counter at the least \<open>int\<close>\<close>

text \<open>The definitions to unfold when an operation is evaluated on a concrete table.\<close>

lemmas eval_defs =
  HashTableLinearProbing_init_def Entry_empty_def Entry_kv_def insert_ht_def retrieve_def
  remove_ht_def hashFunction_def insert_loop.simps retrieve_loop.simps remove_loop.simps

text \<open>
  No call of \<open>insert\<close> adds to \<open>size\<close> and every successful \<open>remove\<close> takes one
  off, so inserting and removing one key \<open>n\<close> times takes \<open>n\<close> off the counter. After
  \<open>2^31\<close> such pairs on a new table the counter is the least \<open>int\<close>, and the next
  \<open>size--\<close> gives the greatest.
\<close>

lemma run_pairs_from_removed:
  "run (\<lambda>k. k)
     \<lparr>table = [\<lparr>key = 5::nat, val = 7::nat, occupied = True, active = False\<rparr>],
      capacity = 1, size_ht = s\<rparr>
     (concat (replicate n [Insert 5 7, Remove 5])) =
   Some \<lparr>table = [\<lparr>key = 5, val = 7, occupied = True, active = False\<rparr>],
          capacity = 1, size_ht = s - of_nat n\<rparr>"
proof (induction n arbitrary: s)
  case 0
  then show ?case by simp
next
  case (Suc n)
  have "run (\<lambda>k. k)
     \<lparr>table = [\<lparr>key = 5::nat, val = 7::nat, occupied = True, active = False\<rparr>],
      capacity = 1, size_ht = s\<rparr>
     (concat (replicate (Suc n) [Insert 5 7, Remove 5])) =
    run (\<lambda>k. k)
     \<lparr>table = [\<lparr>key = 5::nat, val = 7::nat, occupied = True, active = False\<rparr>],
      capacity = 1, size_ht = s - 1\<rparr>
     (concat (replicate n [Insert 5 7, Remove 5]))"
    by (simp add: eval_defs)
  also have "\<dots> = Some \<lparr>table = [\<lparr>key = 5, val = 7, occupied = True, active = False\<rparr>],
          capacity = 1, size_ht = s - 1 - of_nat n\<rparr>"
    by (rule Suc.IH)
  also have "s - 1 - of_nat n = s - of_nat (Suc n)"
    by simp
  finally show ?case .
qed

lemma run_pairs_from_new:
  "run (\<lambda>k. k) (HashTableLinearProbing_init (0::nat) (0::nat) 1)
     (concat (replicate (Suc n) [Insert 5 7, Remove 5])) =
   Some \<lparr>table = [\<lparr>key = 5, val = 7, occupied = True, active = False\<rparr>],
          capacity = 1, size_ht = - 1 - of_nat n\<rparr>"
proof -
  have "run (\<lambda>k. k) (HashTableLinearProbing_init (0::nat) (0::nat) 1)
     (concat (replicate (Suc n) [Insert 5 7, Remove 5])) =
    run (\<lambda>k. k)
     \<lparr>table = [\<lparr>key = 5::nat, val = 7::nat, occupied = True, active = False\<rparr>],
      capacity = 1, size_ht = - 1\<rparr>
     (concat (replicate n [Insert 5 7, Remove 5]))"
    by (simp add: eval_defs)
  also note run_pairs_from_removed
  finally show ?thesis .
qed

lemma least_int_reached:
  "sint (- 1 - of_nat 2147483647 :: 32 word) = - 2147483648"
  by simp

lemma least_int_wraps:
  "sint ((- 1 - of_nat 2147483647 :: 32 word) - 1) = 2147483647"
  by simp

section \<open>The claims\<close>

text \<open>
  Claim C1 asks that a call of \<open>insert\<close> that returns adds one to \<open>size\<close> when the
  slot it writes was not active before, and leaves \<open>size\<close> alone when it was. The
  source reads the flag after it has overwritten the slot with \<open>Entry(key, value)\<close>,
  which is active, so it never moves the counter (lemma \<open>insert_ht_size\<close>). On a new
  table of capacity 1, whose slot 0 is not active, \<open>insert(5, 7)\<close> returns with
  \<open>size\<close> still 0.
\<close>

theorem insert_empty_slot_size:
  "\<not> active (table (HashTableLinearProbing_init (0::nat) (0::nat) 1) ! 0) \<and>
   size_ht (HashTableLinearProbing_init (0::nat) (0::nat) 1) = 0 \<and>
   insert_ht (\<lambda>k. k) (HashTableLinearProbing_init (0::nat) (0::nat) 1) 5 7 =
     Some (Inr \<lparr>table = [\<lparr>key = 5, val = 7, occupied = True, active = True\<rparr>],
                 capacity = 1, size_ht = 0\<rparr>)"
  by (simp add: HashTableLinearProbing_init_def Entry_empty_def Entry_kv_def insert_ht_def
      hashFunction_def insert_loop.simps)

text \<open>
  Claim C2 asks that after any calls on a new table \<open>size\<close> is the number of
  occupied and active slots, and lies between 0 and the capacity. In the source no
  call of \<open>insert\<close> moves \<open>size\<close> and every successful \<open>remove\<close> takes one off:
  on a new table of capacity 1, after \<open>insert(5, 7)\<close> one slot is live and \<open>size\<close>
  is 0; after \<open>remove(5)\<close> no slot is live and \<open>size\<close> is \<open>-1\<close>.
\<close>

theorem size_is_not_live_count:
  "map_option (\<lambda>t. (sint (size_ht t), live_count t))
     (run (\<lambda>k. k) (HashTableLinearProbing_init (0::nat) (0::nat) 1) [Insert 5 7]) =
     Some (0, 1) \<and>
   map_option (\<lambda>t. (sint (size_ht t), live_count t))
     (run (\<lambda>k. k) (HashTableLinearProbing_init (0::nat) (0::nat) 1) [Insert 5 7, Remove 5]) =
     Some (- 1, 0)"
  by (simp add: HashTableLinearProbing_init_def Entry_empty_def Entry_kv_def insert_ht_def
      remove_ht_def hashFunction_def insert_loop.simps remove_loop.simps live_count_def)

text \<open>
  Claim C3. For every key \<open>k\<close> and value \<open>v\<close>: if \<open>insert(k, v)\<close> returns (it does
  not throw), then \<open>retrieve(k)\<close> called next returns \<open>v\<close>. The table is any table
  whose vector has the length \<open>capacity\<close>, as the constructor makes it.
\<close>

theorem insert_then_retrieve:
  assumes "length (table t) = capacity t"
    and "insert_ht hashObj t k v = Some (Inr t')"
  shows "retrieve hashObj t' k = Some (Inr v)"
proof -
  have "capacity t \<noteq> 0"
    using assms(2) insert_ht_capacity_0 [of t hashObj k v] by auto
  then have "well_formed t" using assms(1) by (simp add: well_formed_def)
  then show ?thesis using assms(2) by (rule retrieve_after_insert)
qed

theorem insert_then_retrieve_witness:
  "length (table \<lparr>table = [\<lparr>key = 0::nat, val = 10::nat, occupied = True, active = True\<rparr>,
                            \<lparr>key = 0, val = 0, occupied = False, active = False\<rparr>],
                   capacity = 2, size_ht = 0\<rparr>) = 2 \<and>
   insert_ht (\<lambda>k. k)
     \<lparr>table = [\<lparr>key = 0::nat, val = 10::nat, occupied = True, active = True\<rparr>,
               \<lparr>key = 0, val = 0, occupied = False, active = False\<rparr>],
      capacity = 2, size_ht = 0\<rparr> 2 7 =
     Some (Inr \<lparr>table = [\<lparr>key = 0, val = 10, occupied = True, active = True\<rparr>,
                          \<lparr>key = 2, val = 7, occupied = True, active = True\<rparr>],
                 capacity = 2, size_ht = 0\<rparr>) \<and>
   retrieve (\<lambda>k. k)
     \<lparr>table = [\<lparr>key = 0::nat, val = 10::nat, occupied = True, active = True\<rparr>,
               \<lparr>key = 2, val = 7, occupied = True, active = True\<rparr>],
      capacity = 2, size_ht = 0\<rparr> 2 = Some (Inr 7)"
proof -
  let ?t = "\<lparr>table = [\<lparr>key = 0::nat, val = 10::nat, occupied = True, active = True\<rparr>,
                       \<lparr>key = 0, val = 0, occupied = False, active = False\<rparr>],
              capacity = 2, size_ht = 0\<rparr>"
  let ?t' = "\<lparr>table = [\<lparr>key = 0::nat, val = 10::nat, occupied = True, active = True\<rparr>,
                        \<lparr>key = 2, val = 7, occupied = True, active = True\<rparr>],
              capacity = 2, size_ht = 0\<rparr>"
  have w: "length (table ?t) = capacity ?t" by simp
  have i: "insert_ht (\<lambda>k. k) ?t 2 7 = Some (Inr ?t')"
    by (simp add: insert_ht_def hashFunction_def insert_loop.simps Entry_kv_def)
  from insert_then_retrieve [OF w i] w i show ?thesis by simp
qed

text \<open>
  Claim C4. Some table that calls of the operations produce, and some key, make
  \<open>insert\<close> throw \<open>TableFull\<close> although fewer slots are live than the capacity: a slot
  whose entry was removed still counts as occupied by another key, and the probe walks
  past it. With capacity 2 and keys hashing to themselves: after inserting and removing
  the keys 0 and 1 no slot is live, and \<open>insert(2, 5)\<close> throws.
\<close>

theorem table_full_below_capacity:
  "\<exists>cs t k v.
     run (\<lambda>k. k) (HashTableLinearProbing_init (0::nat) (0::nat) 2) cs = Some t \<and>
     insert_ht (\<lambda>k. k) t k v = Some (Inl TableFull) \<and>
     sint (size_ht t) < int (capacity t) \<and> live_count t < capacity t"
proof -
  let ?t = "\<lparr>table = [\<lparr>key = 0::nat, val = 10::nat, occupied = True, active = False\<rparr>,
                       \<lparr>key = 1, val = 11, occupied = True, active = False\<rparr>],
              capacity = 2, size_ht = - 2\<rparr>"
  have "run (\<lambda>k. k) (HashTableLinearProbing_init (0::nat) (0::nat) 2)
          [Insert 0 10, Insert 1 11, Remove 0, Remove 1] = Some ?t"
    by (simp add: HashTableLinearProbing_init_def Entry_empty_def Entry_kv_def insert_ht_def
        remove_ht_def hashFunction_def insert_loop.simps remove_loop.simps numeral_2_eq_2)
  moreover have "insert_ht (\<lambda>k. k) ?t 2 5 = Some (Inl TableFull)"
    by (simp add: insert_ht_def hashFunction_def insert_loop.simps)
  moreover have "sint (size_ht ?t) < int (capacity ?t) \<and> live_count ?t < capacity ?t"
    by (simp add: live_count_def)
  ultimately show ?thesis by blast
qed

text \<open>
  Claim C5. On a table built by the constructor and any calls after it: when
  \<open>insert(k, v)\<close> returns, \<open>remove(k)\<close> called next returns true, \<open>retrieve(k)\<close>
  after that throws \<open>KeyNotFound\<close>, and a second \<open>remove(k)\<close> returns false and
  changes nothing.
\<close>

theorem insert_remove_retrieve:
  assumes "run hashObj (HashTableLinearProbing_init dk dv cap) cs = Some t"
    and "insert_ht hashObj t k v = Some (Inr t1)"
  shows "\<exists>t2. remove_ht hashObj t1 k = Some (Inr (True, t2)) \<and>
              retrieve hashObj t2 k = Some (Inl KeyNotFound) \<and>
              remove_ht hashObj t2 k = Some (Inr (False, t2))"
  using insert_returns_inv [OF assms] assms(2) by (rule remove_after_insert)

theorem insert_remove_retrieve_witness:
  "run (\<lambda>k. k) (HashTableLinearProbing_init (0::nat) (0::nat) 2) [Insert 0 10] =
     Some \<lparr>table = [\<lparr>key = 0, val = 10, occupied = True, active = True\<rparr>,
                     \<lparr>key = 0, val = 0, occupied = False, active = False\<rparr>],
            capacity = 2, size_ht = 0\<rparr> \<and>
   insert_ht (\<lambda>k. k)
     \<lparr>table = [\<lparr>key = 0::nat, val = 10::nat, occupied = True, active = True\<rparr>,
               \<lparr>key = 0, val = 0, occupied = False, active = False\<rparr>],
      capacity = 2, size_ht = 0\<rparr> 2 7 =
     Some (Inr \<lparr>table = [\<lparr>key = 0, val = 10, occupied = True, active = True\<rparr>,
                          \<lparr>key = 2, val = 7, occupied = True, active = True\<rparr>],
                 capacity = 2, size_ht = 0\<rparr>) \<and>
   (\<exists>t2. remove_ht (\<lambda>k. k)
            \<lparr>table = [\<lparr>key = 0::nat, val = 10::nat, occupied = True, active = True\<rparr>,
                      \<lparr>key = 2, val = 7, occupied = True, active = True\<rparr>],
             capacity = 2, size_ht = 0\<rparr> 2 = Some (Inr (True, t2)) \<and>
          retrieve (\<lambda>k. k) t2 2 = Some (Inl KeyNotFound) \<and>
          remove_ht (\<lambda>k. k) t2 2 = Some (Inr (False, t2)))"
proof -
  let ?t = "\<lparr>table = [\<lparr>key = 0::nat, val = 10::nat, occupied = True, active = True\<rparr>,
                       \<lparr>key = 0, val = 0, occupied = False, active = False\<rparr>],
              capacity = 2, size_ht = 0\<rparr>"
  let ?t1 = "\<lparr>table = [\<lparr>key = 0::nat, val = 10::nat, occupied = True, active = True\<rparr>,
                        \<lparr>key = 2, val = 7, occupied = True, active = True\<rparr>],
               capacity = 2, size_ht = 0\<rparr>"
  have r: "run (\<lambda>k. k) (HashTableLinearProbing_init (0::nat) (0::nat) 2) [Insert 0 10] = Some ?t"
    by (simp add: eval_defs numeral_2_eq_2)
  have i: "insert_ht (\<lambda>k. k) ?t 2 7 = Some (Inr ?t1)"
    by (simp add: eval_defs)
  from insert_remove_retrieve [OF r i] r i show ?thesis by simp
qed

text \<open>
  Claim C6. On a table built by the constructor and any calls after it, when
  \<open>insert(k, v1)\<close> returns, \<open>insert(k, v2)\<close> called
  next returns too; after it exactly one slot is occupied, active and holds \<open>k\<close>, and
  \<open>retrieve(k)\<close> returns \<open>v2\<close>.
\<close>

theorem insert_same_key_twice:
  assumes "run hashObj (HashTableLinearProbing_init dk dv cap) cs = Some t"
    and "insert_ht hashObj t k v1 = Some (Inr t1)"
  shows "\<exists>t2. insert_ht hashObj t1 k v2 = Some (Inr t2) \<and>
              retrieve hashObj t2 k = Some (Inr v2) \<and>
              length (filter (\<lambda>e. occupied e \<and> active e \<and> key e = k) (table t2)) = 1"
  using insert_returns_inv [OF assms] assms(2) by (rule insert_twice)

theorem insert_same_key_twice_witness:
  "run (\<lambda>k. k) (HashTableLinearProbing_init (0::nat) (0::nat) 2) [Insert 0 10] =
     Some \<lparr>table = [\<lparr>key = 0, val = 10, occupied = True, active = True\<rparr>,
                     \<lparr>key = 0, val = 0, occupied = False, active = False\<rparr>],
            capacity = 2, size_ht = 0\<rparr> \<and>
   insert_ht (\<lambda>k. k)
     \<lparr>table = [\<lparr>key = 0::nat, val = 10::nat, occupied = True, active = True\<rparr>,
               \<lparr>key = 0, val = 0, occupied = False, active = False\<rparr>],
      capacity = 2, size_ht = 0\<rparr> 2 7 =
     Some (Inr \<lparr>table = [\<lparr>key = 0, val = 10, occupied = True, active = True\<rparr>,
                          \<lparr>key = 2, val = 7, occupied = True, active = True\<rparr>],
                 capacity = 2, size_ht = 0\<rparr>) \<and>
   (\<exists>t2. insert_ht (\<lambda>k. k)
            \<lparr>table = [\<lparr>key = 0::nat, val = 10::nat, occupied = True, active = True\<rparr>,
                      \<lparr>key = 2, val = 7, occupied = True, active = True\<rparr>],
             capacity = 2, size_ht = 0\<rparr> 2 8 = Some (Inr t2) \<and>
          retrieve (\<lambda>k. k) t2 2 = Some (Inr 8) \<and>
          length (filter (\<lambda>e. occupied e \<and> active e \<and> key e = 2) (table t2)) = 1)"
proof -
  let ?t = "\<lparr>table = [\<lparr>key = 0::nat, val = 10::nat, occupied = True, active = True\<rparr>,
                       \<lparr>key = 0, val = 0, occupied = False, active = False\<rparr>],
              capacity = 2, size_ht = 0\<rparr>"
  let ?t1 = "\<lparr>table = [\<lparr>key = 0::nat, val = 10::nat, occupied = True, active = True\<rparr>,
                        \<lparr>key = 2, val = 7, occupied = True, active = True\<rparr>],
               capacity = 2, size_ht = 0\<rparr>"
  have r: "run (\<lambda>k. k) (HashTableLinearProbing_init (0::nat) (0::nat) 2) [Insert 0 10] = Some ?t"
    by (simp add: eval_defs numeral_2_eq_2)
  have i: "insert_ht (\<lambda>k. k) ?t 2 7 = Some (Inr ?t1)"
    by (simp add: eval_defs)
  from insert_same_key_twice [OF r i, of 8] r i show ?thesis by simp
qed

text \<open>
  Claim C7. On a table built by the constructor and any calls after it, the keys of the
  occupied and active slots are pairwise different: no two such slots hold the same
  key.
\<close>

theorem live_keys_distinct:
  assumes "run hashObj (HashTableLinearProbing_init dk dv cap) cs = Some t"
  shows "distinct (map key (filter (\<lambda>e. occupied e \<and> active e) (table t)))"
proof (cases "cap = 0")
  case True
  then have "t = HashTableLinearProbing_init dk dv cap"
    using run_capacity_0 [OF _ assms] by (simp add: HashTableLinearProbing_init_def)
  then show ?thesis using True by (simp add: HashTableLinearProbing_init_def)
next
  case False
  then have "table_inv hashObj t" using run_init_inv [OF _ assms] by simp
  then have di: "distinct_keys t" and l: "length (table t) = capacity t"
    by (simp_all add: table_inv_def well_formed_def)
  show ?thesis
  proof (rule distinct_map_filter_nth, intro allI impI)
    fix i j assume "i < length (table t)" "j < length (table t)"
      "occupied (table t ! i) \<and> active (table t ! i)"
      "occupied (table t ! j) \<and> active (table t ! j)"
      "key (table t ! i) = key (table t ! j)"
    then show "i = j" using distinct_keysD [OF di, of i j] l by simp
  qed
qed

theorem live_keys_distinct_witness:
  "run (\<lambda>k. k) (HashTableLinearProbing_init (0::nat) (0::nat) 2) [Insert 0 10, Insert 2 7] =
     Some \<lparr>table = [\<lparr>key = 0, val = 10, occupied = True, active = True\<rparr>,
                     \<lparr>key = 2, val = 7, occupied = True, active = True\<rparr>],
            capacity = 2, size_ht = 0\<rparr> \<and>
   distinct (map key (filter (\<lambda>e. occupied e \<and> active e)
     (table \<lparr>table = [\<lparr>key = 0::nat, val = 10::nat, occupied = True, active = True\<rparr>,
                      \<lparr>key = 2, val = 7, occupied = True, active = True\<rparr>],
             capacity = 2, size_ht = 0\<rparr>)))"
proof -
  have r: "run (\<lambda>k. k) (HashTableLinearProbing_init (0::nat) (0::nat) 2)
      [Insert 0 10, Insert 2 7] =
     Some \<lparr>table = [\<lparr>key = 0, val = 10, occupied = True, active = True\<rparr>,
                     \<lparr>key = 2, val = 7, occupied = True, active = True\<rparr>],
            capacity = 2, size_ht = 0\<rparr>"
    by (simp add: eval_defs numeral_2_eq_2)
  from live_keys_distinct [OF r] r show ?thesis by blast
qed



text \<open>
  Claim C9. On a table built by the constructor with a positive capacity and any calls
  after it, the vector has as many slots as the capacity, the home index
  \<open>hashObj(key) % capacity\<close> of every key and every probe step
  \<open>(index + 1) % capacity\<close> are below the capacity, and none of \<open>insert\<close>,
  \<open>retrieve\<close> and \<open>remove\<close> reads or writes a slot outside the vector: none of them
  has the result \<open>Undefined\<close>.
\<close>

theorem slot_indices_in_range:
  assumes "0 < cap"
    and "run hashObj (HashTableLinearProbing_init dk dv cap) cs = Some t"
  shows "length (table t) = capacity t \<and>
         (\<exists>s<capacity t. hashFunction hashObj t k = Inr s) \<and>
         (\<forall>index. (index + 1) mod capacity t < capacity t) \<and>
         insert_ht hashObj t k v \<noteq> Some (Inl Undefined) \<and>
         retrieve hashObj t k \<noteq> Some (Inl Undefined) \<and>
         remove_ht hashObj t k \<noteq> Some (Inl Undefined)"
proof -
  have wf: "well_formed t" using assms by (rule run_well_formed)
  then have "length (table t) = capacity t" and c: "0 < capacity t"
    by (simp_all add: well_formed_def)
  moreover have "\<exists>s<capacity t. hashFunction hashObj t k = Inr s"
    using hashFunction_home [OF wf, of hashObj k] home_less [OF wf, of hashObj k] by simp
  moreover have "\<forall>index. (index + 1) mod capacity t < capacity t"
    using c by simp
  ultimately show ?thesis
    using insert_ht_not_undefined [OF wf, of hashObj k v]
      retrieve_not_undefined [OF wf, of hashObj k]
      remove_ht_not_undefined [OF wf, of hashObj k]
    by simp
qed

theorem slot_indices_in_range_witness:
  "(0::nat) < 2 \<and>
   run (\<lambda>k. k) (HashTableLinearProbing_init (0::nat) (0::nat) 2) [Insert 0 10] =
     Some \<lparr>table = [\<lparr>key = 0, val = 10, occupied = True, active = True\<rparr>,
                     \<lparr>key = 0, val = 0, occupied = False, active = False\<rparr>],
            capacity = 2, size_ht = 0\<rparr> \<and>
   insert_ht (\<lambda>k. k)
     \<lparr>table = [\<lparr>key = 0::nat, val = 10::nat, occupied = True, active = True\<rparr>,
               \<lparr>key = 0, val = 0, occupied = False, active = False\<rparr>],
      capacity = 2, size_ht = 0\<rparr> 5 7 \<noteq> Some (Inl Undefined) \<and>
   retrieve (\<lambda>k. k)
     \<lparr>table = [\<lparr>key = 0::nat, val = 10::nat, occupied = True, active = True\<rparr>,
               \<lparr>key = 0, val = 0, occupied = False, active = False\<rparr>],
      capacity = 2, size_ht = 0\<rparr> 5 \<noteq> Some (Inl Undefined) \<and>
   remove_ht (\<lambda>k. k)
     \<lparr>table = [\<lparr>key = 0::nat, val = 10::nat, occupied = True, active = True\<rparr>,
               \<lparr>key = 0, val = 0, occupied = False, active = False\<rparr>],
      capacity = 2, size_ht = 0\<rparr> 5 \<noteq> Some (Inl Undefined)"
proof -
  have c: "(0::nat) < 2" by simp
  have r: "run (\<lambda>k. k) (HashTableLinearProbing_init (0::nat) (0::nat) 2) [Insert 0 10] =
     Some \<lparr>table = [\<lparr>key = 0, val = 10, occupied = True, active = True\<rparr>,
                     \<lparr>key = 0, val = 0, occupied = False, active = False\<rparr>],
            capacity = 2, size_ht = 0\<rparr>"
    by (simp add: eval_defs numeral_2_eq_2)
  from slot_indices_in_range [OF c r, of 5 7] c r show ?thesis by blast
qed

text \<open>
  Claim C10. On a table whose capacity is positive and whose vector has that many
  slots, each of \<open>insert\<close>, \<open>retrieve\<close> and \<open>remove\<close> returns or throws, for every
  key. The probe loop of each, started at the home index, gives the result that the
  same loop gives when it is cut off after \<open>capacity\<close> slots: it looks at no more than
  \<open>capacity\<close> slots.
\<close>

theorem probe_loops_terminate:
  assumes "well_formed t"
  shows "\<exists>s. hashFunction hashObj t k = Inr s \<and>
     (\<exists>r. insert_loop_fuel (capacity t) t k s s = Some r \<and> insert_loop t k s s = Some r) \<and>
     (\<exists>r. retrieve_loop_fuel (capacity t) t k s s = Some r \<and>
           retrieve_loop t k s s = Some r) \<and>
     (\<exists>r. remove_loop_fuel (capacity t) t k s s = Some r \<and> remove_loop t k s s = Some r) \<and>
     insert_ht hashObj t k v \<noteq> None \<and> retrieve hashObj t k \<noteq> None \<and>
     remove_ht hashObj t k \<noteq> None"
  using hashFunction_home [OF assms, of hashObj k]
    insert_loop_bounded [OF assms, of k hashObj]
    retrieve_loop_bounded [OF assms, of k hashObj]
    remove_loop_bounded [OF assms, of k hashObj]
    insert_ht_not_undefined [OF assms, of hashObj k v]
    retrieve_not_undefined [OF assms, of hashObj k]
    remove_ht_not_undefined [OF assms, of hashObj k]
  by simp

theorem probe_loops_terminate_witness:
  "well_formed \<lparr>table = [\<lparr>key = 0::nat, val = 10::nat, occupied = True, active = False\<rparr>,
                          \<lparr>key = 1, val = 11, occupied = True, active = False\<rparr>],
                 capacity = 2, size_ht = - 2\<rparr> \<and>
   insert_loop_fuel 2
     \<lparr>table = [\<lparr>key = 0::nat, val = 10::nat, occupied = True, active = False\<rparr>,
               \<lparr>key = 1, val = 11, occupied = True, active = False\<rparr>],
      capacity = 2, size_ht = - 2\<rparr> 2 0 0 = Some (Inl TableFull) \<and>
   insert_ht (\<lambda>k. k)
     \<lparr>table = [\<lparr>key = 0::nat, val = 10::nat, occupied = True, active = False\<rparr>,
               \<lparr>key = 1, val = 11, occupied = True, active = False\<rparr>],
      capacity = 2, size_ht = - 2\<rparr> 2 5 \<noteq> None \<and>
   retrieve (\<lambda>k. k)
     \<lparr>table = [\<lparr>key = 0::nat, val = 10::nat, occupied = True, active = False\<rparr>,
               \<lparr>key = 1, val = 11, occupied = True, active = False\<rparr>],
      capacity = 2, size_ht = - 2\<rparr> 2 \<noteq> None \<and>
   remove_ht (\<lambda>k. k)
     \<lparr>table = [\<lparr>key = 0::nat, val = 10::nat, occupied = True, active = False\<rparr>,
               \<lparr>key = 1, val = 11, occupied = True, active = False\<rparr>],
      capacity = 2, size_ht = - 2\<rparr> 2 \<noteq> None"
proof -
  let ?t = "\<lparr>table = [\<lparr>key = 0::nat, val = 10::nat, occupied = True, active = False\<rparr>,
                       \<lparr>key = 1, val = 11, occupied = True, active = False\<rparr>],
              capacity = 2, size_ht = - 2\<rparr>"
  have w: "well_formed ?t" by (simp add: well_formed_def)
  have f: "insert_loop_fuel 2 ?t 2 0 0 = Some (Inl TableFull)"
    by (simp add: numeral_2_eq_2)
  from probe_loops_terminate [OF w, of "\<lambda>k. k" 2 5] w f show ?thesis by blast
qed

end
